theory Spec2Isabelle
  imports Complex_Main "HOL-Library.Word"
begin

unbundle bit_operations_syntax

section \<open>Bytes, Python errors and slicing\<close>

text \<open>
  A Python \<open>bytes\<close>/\<open>bytearray\<close> object is a list of 8-bit words; Python's unbounded
  integers are \<open>int\<close>. Exceptions that leave a function are values of \<open>py_error\<close>.
\<close>

type_synonym byte = "8 word"

datatype py_error = IndexError | ValueError | TypeError | AssertionError

text \<open>\<open>xs[a:b]\<close> for non-negative \<open>a\<close>, \<open>b\<close>: never raises, clips at the end.\<close>

definition py_slice :: "'a list \<Rightarrow> nat \<Rightarrow> nat \<Rightarrow> 'a list" where
  "py_slice xs a b = drop a (take b xs)"

text \<open>\<open>xs.index(v)\<close>: position of the first occurrence, \<open>None\<close> where Python raises ValueError.\<close>

fun index_of :: "'a \<Rightarrow> 'a list \<Rightarrow> nat option" where
  "index_of v [] = None"
| "index_of v (x # xs) = (if x = v then Some 0 else map_option Suc (index_of v xs))"

section \<open>class CRSF: constants and the int32 codec\<close>

definition SYNC :: byte where "SYNC = 0xC8"
definition MSG_TYPE_PARAM_ENTRY :: byte where "MSG_TYPE_PARAM_ENTRY = 0x2B"
definition MSG_TYPE_MAVLINK_ENV :: byte where "MSG_TYPE_MAVLINK_ENV = 0xAA"
definition MSG_TYPE_PING :: byte where "MSG_TYPE_PING = 0x28"

text \<open>
  \<open>decode_int32(data)\<close>: \<open>data[0..3]\<close> are read by index, so a list shorter than four
  items raises IndexError (\<open>None\<close>); it is called on lists of ints and on slices of
  \<open>bytes\<close>, whose items are ints in 0..255. In Python \<open>~x = -x - 1\<close> on unbounded integers,
  which is \<open>NOT\<close> on \<open>int\<close>.
\<close>

definition decode_int32 :: "int list \<Rightarrow> int option" where
  "decode_int32 data =
     (if length data < 4 then None
      else
        let uint32 = push_bit 24 (data ! 0) OR push_bit 16 (data ! 1)
                     OR push_bit 8 (data ! 2) OR data ! 3
        in if uint32 AND 0x80000000 \<noteq> 0 then Some (- (NOT uint32) - 1) else Some uint32)"

definition encode_int32 :: "int \<Rightarrow> int list" where
  "encode_int32 val =
     [drop_bit 24 val AND 0xFF, drop_bit 16 val AND 0xFF, drop_bit 8 val AND 0xFF, val AND 0xFF]"

section \<open>class crsf_crc8\<close>

record crsf_crc8 =
  val :: int
  poly :: int

definition RESET_VALUE :: int where "RESET_VALUE = 0x00"
definition POLYNOM_1 :: int where "POLYNOM_1 = 0xD5"
definition POLYNOM_2 :: int where "POLYNOM_2 = 0xBA"
definition MSB_SET :: int where "MSB_SET = 0x80"
definition FINISH_VALUE :: int where "FINISH_VALUE = 0x00"

definition crc8_init :: "int option \<Rightarrow> crsf_crc8" where
  "crc8_init p = \<lparr>val = RESET_VALUE, poly = (case p of Some q \<Rightarrow> q | None \<Rightarrow> POLYNOM_1)\<rparr>"

text \<open>The body of \<open>for i in range(8)\<close> in \<open>_calc\<close>, run \<open>n\<close> times on \<open>(val, byte)\<close>.\<close>

fun calc_bits :: "nat \<Rightarrow> int \<Rightarrow> int \<Rightarrow> int \<Rightarrow> int" where
  "calc_bits 0 pl v byte = v"
| "calc_bits (Suc n) pl v byte =
     (let msb_flag = v AND MSB_SET;
          v1 = push_bit 1 v;
          v2 = (if byte AND MSB_SET \<noteq> 0 then v1 + 1 else v1);
          byte' = push_bit 1 byte;
          v3 = (if msb_flag \<noteq> 0 then v2 XOR pl else v2)
      in calc_bits n pl v3 byte')"

definition calc :: "crsf_crc8 \<Rightarrow> int \<Rightarrow> crsf_crc8" where
  "calc c byte = c\<lparr>val := calc_bits 8 (poly c) (val c) byte AND 0xFF\<rparr>"

definition crc_digest :: "crsf_crc8 \<Rightarrow> int list \<Rightarrow> crsf_crc8" where
  "crc_digest c data = foldl calc c data"

definition finish :: "crsf_crc8 \<Rightarrow> int" where
  "finish c = val (calc c FINISH_VALUE)"

definition calc_crc8 :: "byte list \<Rightarrow> int" where
  "calc_crc8 data = finish (crc_digest (crc8_init (Some POLYNOM_1)) (map uint data))"

section \<open>class crsf_frame\<close>

datatype crsf_frame = crsf_frame (data: "byte list")

text \<open>Indexing \<open>self.data[i]\<close> raises IndexError out of range: \<open>None\<close>.\<close>

definition byte_at :: "byte list \<Rightarrow> nat \<Rightarrow> byte option" where
  "byte_at xs i = (if i < length xs then Some (xs ! i) else None)"

definition frame_len :: "crsf_frame \<Rightarrow> nat option" where
  "frame_len f = map_option (\<lambda>b. unat b + 2) (byte_at (data f) 1)"

definition frame_type :: "crsf_frame \<Rightarrow> byte option" where
  "frame_type f = byte_at (data f) 2"

definition ext_type :: "byte \<Rightarrow> bool" where
  "ext_type t = (t \<ge> 0x28 \<and> t \<le> 0x96 \<or> t = MSG_TYPE_MAVLINK_ENV)"

definition is_extended :: "crsf_frame \<Rightarrow> bool option" where
  "is_extended f = map_option ext_type (frame_type f)"

text \<open>\<open>origin\<close> and \<open>destination\<close>: outer \<open>None\<close> is an IndexError, inner \<open>None\<close> is Python's None.\<close>

definition origin :: "crsf_frame \<Rightarrow> byte option option" where
  "origin f = (case is_extended f of None \<Rightarrow> None
               | Some e \<Rightarrow> if e then map_option Some (byte_at (data f) 4) else Some None)"

definition destination :: "crsf_frame \<Rightarrow> byte option option" where
  "destination f = (case is_extended f of None \<Rightarrow> None
               | Some e \<Rightarrow> if e then map_option Some (byte_at (data f) 3) else Some None)"

text \<open>\<open>self.data[5 if self.is_extended else 3 : -1]\<close>.\<close>

definition payload :: "crsf_frame \<Rightarrow> byte list option" where
  "payload f = map_option (\<lambda>e. drop (if e then 5 else 3) (butlast (data f))) (is_extended f)"

section \<open>create\_frame\<close>

text \<open>
  \<open>frame[OFFSET_LENGTH] = len(frame) - 1\<close> raises ValueError when the value does not fit a
  byte, that is when the body has more than 254 bytes.
\<close>

definition create_frame :: "byte list \<Rightarrow> py_error + crsf_frame" where
  "create_frame body =
     (let frame = [SYNC, 0] @ body in
      if length frame - 1 > 255 then Inl ValueError
      else
        let frame = frame[1 := of_nat (length frame - 1)];
            frame = frame @ [word_of_int (calc_crc8 (drop 2 frame))]
        in Inr (crsf_frame frame))"

section \<open>class crsf\_parser\<close>

record crsf_parser =
  buf :: "byte list"
  silent :: bool

definition parser_init :: "bool \<Rightarrow> crsf_parser" where
  "parser_init s = \<lparr>buf = [], silent = s\<rparr>"

text \<open>
  The \<open>while len(self.data) >= 4\<close> loop of \<open>digest\<close> on the buffer: the frames yielded, in
  order, and the buffer left. The inner \<open>while\<close> that discards bytes up to the next SYNC is
  \<open>dropWhile\<close>. Writes to stderr are not modelled.
\<close>

function digest_loop :: "byte list \<Rightarrow> crsf_frame list \<times> byte list" where
  "digest_loop d =
     (if length d \<ge> 4 then
        let d1 = dropWhile (\<lambda>b. b \<noteq> SYNC) d in
        if length d1 > 1 then
          let flen = unat (d1 ! 1) + 2 in
          if length d1 \<ge> flen then
            let crc_byte = d1 ! (flen - 1);
                calc_crc = calc_crc8 (py_slice d1 2 (flen - 1))
            in if uint crc_byte = calc_crc then
                 (let (fs, r) = digest_loop (drop flen d1) in (crsf_frame (take flen d1) # fs, r))
               else digest_loop (drop 1 d1)
          else ([], d1)
        else ([], d1)
      else ([], d))"
  by pat_completeness auto
termination
proof (relation "measure length")
  show "wf (measure length)" by simp
next
  fix d d1 :: "byte list" and flen :: nat
  assume "4 \<le> length d" "d1 = dropWhile (\<lambda>b. b \<noteq> SYNC) d" "1 < length d1"
    "flen = unat (d1 ! 1) + 2"
  moreover have "length (dropWhile (\<lambda>b. b \<noteq> SYNC) d) \<le> length d"
    by (rule length_dropWhile_le)
  ultimately show "(drop flen d1, d) \<in> measure length" by simp
next
  fix d d1 :: "byte list"
  assume "4 \<le> length d" "d1 = dropWhile (\<lambda>b. b \<noteq> SYNC) d" "1 < length d1"
  moreover have "length (dropWhile (\<lambda>b. b \<noteq> SYNC) d) \<le> length d"
    by (rule length_dropWhile_le)
  ultimately show "(drop 1 d1, d) \<in> measure length" by simp
qed

declare digest_loop.simps [simp del]

definition digest :: "crsf_parser \<Rightarrow> byte list \<Rightarrow> crsf_frame list \<times> crsf_parser" where
  "digest ps new =
     (let (fs, r) = digest_loop (buf ps @ new) in (fs, ps\<lparr>buf := r\<rparr>))"

text \<open>Successive \<open>digest\<close> calls on one parser, all yielded frames collected in order.\<close>

fun digest_all :: "crsf_parser \<Rightarrow> byte list list \<Rightarrow> crsf_frame list \<times> crsf_parser" where
  "digest_all ps [] = ([], ps)"
| "digest_all ps (piece # pieces) =
     (let (fs, ps1) = digest ps piece;
          (gs, ps2) = digest_all ps1 pieces
      in (fs @ gs, ps2))"

section \<open>PPM channel decoding\<close>

text \<open>\<open>'{:08b}'.format(x)\<close> for a byte: its eight bits, most significant first.\<close>

definition bin_byte :: "byte \<Rightarrow> string" where
  "bin_byte x = map (\<lambda>i. if bit x i then CHR ''1'' else CHR ''0'') (rev [0..<8])"

text \<open>\<open>int(s, 2)\<close> on a string of binary digits.\<close>

definition int_base2 :: "string \<Rightarrow> int" where
  "int_base2 s = foldl (\<lambda>a c. 2 * a + (if c = CHR ''1'' then 1 else 0)) 0 s"

definition ticks_to_us :: "int \<Rightarrow> int" where
  "ticks_to_us x = (x - 992) * 5 div 8 + 1500"

text \<open>\<open>range(start, stop, -step)\<close> for a positive \<open>step\<close>: counts down while above \<open>stop\<close>.\<close>

function range_desc :: "int \<Rightarrow> int \<Rightarrow> int \<Rightarrow> int list" where
  "range_desc start stop step =
     (if 0 < step \<and> stop < start then start # range_desc (start - step) stop step else [])"
  by pat_completeness auto
termination
  by (relation "measure (\<lambda>(start, stop, step). nat (start - stop))") auto

declare range_desc.simps [simp del]

definition ppm_channels_decode :: "byte list \<Rightarrow> py_error + int list" where
  "ppm_channels_decode d =
     (let s = concat (map bin_byte (rev d)) in
      if length s mod 11 \<noteq> 0 then Inl AssertionError
      else
        let ticks = map (\<lambda>x. int_base2 (py_slice s (nat x) (nat x + 11)))
                        (range_desc (int (length s) - 11) 0 11)
        in Inr (map ticks_to_us ticks))"

section \<open>Python strings\<close>

text \<open>
  A Python \<open>str\<close> is its list of code points. \<open>utf8_decode\<close> is the built-in
  \<open>bytes.decode()\<close> (strict UTF-8: no overlong forms, no surrogates, nothing above U+10FFFF);
  \<open>None\<close> is UnicodeDecodeError.
\<close>

type_synonym pystr = "nat list"

definition cont :: "byte \<Rightarrow> bool" where
  "cont b = (0x80 \<le> b \<and> b \<le> 0xBF)"

definition cbits :: "byte \<Rightarrow> nat" where
  "cbits b = unat (b AND 0x3F)"

fun utf8_decode :: "byte list \<Rightarrow> pystr option" where
  "utf8_decode [] = Some []"
| "utf8_decode (b # bs) =
     (if b < 0x80 then map_option ((#) (unat b)) (utf8_decode bs)
      else if 0xC2 \<le> b \<and> b \<le> 0xDF then
        (if 1 \<le> length bs \<and> cont (bs ! 0)
         then map_option ((#) (unat (b AND 0x1F) * 64 + cbits (bs ! 0))) (utf8_decode (drop 1 bs))
         else None)
      else if 0xE0 \<le> b \<and> b \<le> 0xEF then
        (if 2 \<le> length bs \<and> cont (bs ! 0) \<and> cont (bs ! 1)
            \<and> (if b = 0xE0 then 0xA0 \<le> bs ! 0 else True)
            \<and> (if b = 0xED then bs ! 0 \<le> 0x9F else True)
         then map_option ((#) (unat (b AND 0x0F) * 4096 + cbits (bs ! 0) * 64 + cbits (bs ! 1)))
                (utf8_decode (drop 2 bs))
         else None)
      else if 0xF0 \<le> b \<and> b \<le> 0xF4 then
        (if 3 \<le> length bs \<and> cont (bs ! 0) \<and> cont (bs ! 1) \<and> cont (bs ! 2)
            \<and> (if b = 0xF0 then 0x90 \<le> bs ! 0 else True)
            \<and> (if b = 0xF4 then bs ! 0 \<le> 0x8F else True)
         then map_option ((#) (unat (b AND 0x07) * 262144 + cbits (bs ! 0) * 4096
                                 + cbits (bs ! 1) * 64 + cbits (bs ! 2)))
                (utf8_decode (drop 3 bs))
         else None)
      else None)"

text \<open>\<open>s.split(sep)\<close> for a one-character separator: always at least one field.\<close>

fun split_on :: "'a \<Rightarrow> 'a list \<Rightarrow> 'a list list" where
  "split_on sep [] = [[]]"
| "split_on sep (x # xs) =
     (if x = sep then [] # split_on sep xs
      else (case split_on sep xs of [] \<Rightarrow> [[x]] | h # t \<Rightarrow> (x # h) # t))"

section \<open>class CRSFParam\<close>

definition TEXT_SELECTION_TYPE :: int where "TEXT_SELECTION_TYPE = 0x09"
definition STRING_TYPE :: int where "STRING_TYPE = 0x0a"
definition FOLDER_TYPE :: int where "FOLDER_TYPE = 0x0b"
definition INFO_TYPE :: int where "INFO_TYPE = 0x0c"
definition COMMAND_TYPE :: int where "COMMAND_TYPE = 0x0d"
definition FLOAT_TYPE :: int where "FLOAT_TYPE = 8"

text \<open>\<open>self.value\<close> holds None, an int (FLOAT, TEXT_SELECTION) or a str (STRING, INFO).\<close>

datatype pyvalue = VNone | VInt int | VStr pystr

text \<open>
  The attributes of a parameter, each prefixed with \<open>p_\<close>. \<open>None\<close> is Python's None.
  \<open>hidden\<close> is initialised to False and later holds \<open>data_type & 0x80\<close>; False is the
  integer 0. Times are numbers of seconds; \<open>debug_cb\<close> only logs and is left out.
\<close>

record CRSFParam =
  p_num :: int
  p_parent_folder :: "int option"
  p_type :: "int option"
  p_name :: pystr
  p_chunks :: "byte list option list"
  p_value :: pyvalue
  p_hidden :: int
  p_min :: "int option"
  p_default :: "int option"
  p_max :: "int option"
  p_unit :: "pystr option"
  p_children :: "int list option"
  p_options :: "pystr list"
  p_max_length :: "int option"
  p_decimal_point :: "int option"
  p_step_size :: "int option"
  p_status :: "int option"
  p_timeout :: "rat option"
  p_info :: "pystr option"
  p_created_time :: rat
  p_obtained_time :: rat

text \<open>\<open>__init__(param_num)\<close> at time \<open>now\<close>; the name starts as \<open>'...'\<close>.\<close>

definition param_init :: "int \<Rightarrow> rat \<Rightarrow> CRSFParam" where
  "param_init param_num now =
     \<lparr>p_num = param_num, p_parent_folder = None, p_type = None, p_name = [46, 46, 46],
      p_chunks = [], p_value = VNone, p_hidden = 0,
      p_min = None, p_default = None, p_max = None, p_unit = None, p_children = None,
      p_options = [], p_max_length = None, p_decimal_point = None, p_step_size = None,
      p_status = None, p_timeout = None, p_info = None,
      p_created_time = now, p_obtained_time = 0\<rparr>"

subsection \<open>Writing a FLOAT\<close>

text \<open>
  \<open>eval\<close> of a decimal literal \<open>digits\<close> or \<open>digits.digits\<close>, as the exact rational it
  denotes. Python floats are modelled by exact rationals throughout.
\<close>

definition digits_value :: "string \<Rightarrow> nat" where
  "digits_value s = foldl (\<lambda>a c. 10 * a + (of_char c - 48)) 0 s"

definition eval_literal :: "string \<Rightarrow> rat" where
  "eval_literal s =
     (let ip = takeWhile (\<lambda>c. c \<noteq> CHR ''.'') s;
          fp = drop (length ip + 1) s
      in of_nat (digits_value ip) + of_nat (digits_value fp) / 10 ^ length fp)"

text \<open>\<open>'0' * n\<close> is empty for \<open>n \<le> 0\<close>; a decimal point of None or 0 is falsy.\<close>

definition get_float_decimal :: "CRSFParam \<Rightarrow> rat" where
  "get_float_decimal p =
     eval_literal (case p_decimal_point p of
                     None \<Rightarrow> ''1''
                   | Some dp \<Rightarrow> if dp \<noteq> 0 then ''0.'' @ replicate (nat dp) CHR ''0'' @ ''1''
                                else ''1'')"

text \<open>\<open>round(x)\<close> on a float: to the nearest integer, a tie to the even one.\<close>

definition py_round :: "rat \<Rightarrow> int" where
  "py_round x =
     (let f = \<lfloor>x\<rfloor>; r = x - of_int f
      in if r < 1 / 2 then f else if 1 / 2 < r then f + 1 else if even f then f else f + 1)"

text \<open>
  \<open>encode_float\<close>: \<open>Inr None\<close> is the returned None (out of range), \<open>Inl TypeError\<close> the
  comparison with a \<open>min\<close> or \<open>max\<close> that is None.
\<close>

definition encode_float :: "CRSFParam \<Rightarrow> rat \<Rightarrow> py_error + int option" where
  "encode_float p v =
     (let q = py_round (v / get_float_decimal p) in
      case p_min p of
        None \<Rightarrow> Inl TypeError
      | Some lo \<Rightarrow>
          if q < lo then Inr None
          else (case p_max p of
                  None \<Rightarrow> Inl TypeError
                | Some hi \<Rightarrow> if hi < q then Inr None else Inr (Some q)))"

subsection \<open>process\_frame\<close>

text \<open>
  The result of \<open>process_frame\<close> is the exception that leaves it, if any, and the parameter
  as the call leaves it (assignments made before a raise stay). \<open>time.time()\<close> is the
  argument \<open>now\<close>. Calls to \<open>self.debug\<close> only log.

  \<open>decode_entry\<close> is the part of \<open>process_frame\<close> from
  \<open>parent_folder, data_type = payload[2:4]\<close> on, run on the payload chosen by the chunk
  handling. Where a NUL search has succeeded the bytes before it exist, so the indexed reads
  \<open>payload[nul + 1]\<close>, \<open>payload[nul + 2]\<close> and \<open>payload[nul + 17]\<close> are in range.
  The float product \<open>payload[nul + 2] * 0.1\<close> is taken exactly.
\<close>

definition decode_entry :: "CRSFParam \<Rightarrow> nat \<Rightarrow> byte list \<Rightarrow> rat \<Rightarrow> py_error option \<times> CRSFParam" where
  "decode_entry p chunks_remain pl now =
     (if length (py_slice pl 2 4) \<noteq> 2 then (Some ValueError, p)
      else
        let parent_folder = uint (pl ! 2);
            hidden = uint (pl ! 3 AND 0x80);
            data_type = uint (pl ! 3 AND 0x7F)
        in
        case index_of 0 (drop 4 pl) of None \<Rightarrow> (None, p) | Some i \<Rightarrow>
        let nul = 4 + i in
        case utf8_decode (py_slice pl 4 nul) of None \<Rightarrow> (None, p) | Some name \<Rightarrow>
        if data_type = FOLDER_TYPE then
          (case index_of 0xFF (drop (nul + 1) pl) of None \<Rightarrow> (None, p) | Some j \<Rightarrow>
           let endp = nul + 1 + j;
               children = map uint (py_slice pl (nul + 1) endp)
           in if chunks_remain = 0 then
                (None, p\<lparr>p_children := Some children, p_parent_folder := Some parent_folder,
                          p_type := Some data_type, p_name := name, p_hidden := hidden,
                          p_obtained_time := now\<rparr>)
              else (None, p))
        else if data_type = COMMAND_TYPE then
          (case index_of 0 (drop (nul + 3) pl) of None \<Rightarrow> (None, p) | Some j \<Rightarrow>
           let endp = nul + 3 + j in
           case utf8_decode (py_slice pl (nul + 3) endp) of None \<Rightarrow> (None, p) | Some info \<Rightarrow>
           if chunks_remain = 0 then
             (let t = uint (pl ! (nul + 2)) in
              (None, p\<lparr>p_parent_folder := Some parent_folder, p_type := Some data_type,
                        p_name := name, p_hidden := hidden,
                        p_status := Some (uint (pl ! (nul + 1))),
                        p_timeout := Some (if t mod 10 \<noteq> 0 then of_int t * (1 / 10)
                                           else of_int (t div 10)),
                        p_info := Some info, p_obtained_time := now\<rparr>))
           else (None, p))
        else if data_type = FLOAT_TYPE then
          (case index_of 0 (drop (nul + 22) pl) of None \<Rightarrow> (None, p) | Some j \<Rightarrow>
           let endp = nul + 22 + j in
           case utf8_decode (py_slice pl (nul + 22) endp) of None \<Rightarrow> (None, p) | Some unit \<Rightarrow>
           if chunks_remain = 0 then
             (let p1 = p\<lparr>p_parent_folder := Some parent_folder, p_type := Some data_type,
                         p_hidden := hidden, p_name := name\<rparr> in
              case decode_int32 (map uint (py_slice pl (nul + 1) (nul + 5))) of
                None \<Rightarrow> (Some IndexError, p1) | Some v \<Rightarrow>
              let p2 = p1\<lparr>p_value := VInt v\<rparr> in
              case decode_int32 (map uint (py_slice pl (nul + 5) (nul + 9))) of
                None \<Rightarrow> (Some IndexError, p2) | Some mn \<Rightarrow>
              let p3 = p2\<lparr>p_min := Some mn\<rparr> in
              case decode_int32 (map uint (py_slice pl (nul + 9) (nul + 13))) of
                None \<Rightarrow> (Some IndexError, p3) | Some mx \<Rightarrow>
              let p4 = p3\<lparr>p_max := Some mx\<rparr> in
              case decode_int32 (map uint (py_slice pl (nul + 13) (nul + 17))) of
                None \<Rightarrow> (Some IndexError, p4) | Some df \<Rightarrow>
              let p5 = p4\<lparr>p_default := Some df,
                          p_decimal_point := Some (uint (pl ! (nul + 17)))\<rparr> in
              case decode_int32 (map uint (py_slice pl (nul + 18) (nul + 22))) of
                None \<Rightarrow> (Some IndexError, p5) | Some st \<Rightarrow>
              (None, p5\<lparr>p_step_size := Some st, p_unit := Some unit, p_obtained_time := now\<rparr>))
           else (None, p))
        else if data_type = STRING_TYPE \<or> data_type = INFO_TYPE then
          (case index_of 0 (drop (nul + 1) pl) of None \<Rightarrow> (None, p) | Some j \<Rightarrow>
           let endp = nul + 1 + j in
           case utf8_decode (py_slice pl (nul + 1) endp) of None \<Rightarrow> (None, p) | Some v \<Rightarrow>
           if data_type = STRING_TYPE \<and> length pl \<le> endp + 1 then (Some IndexError, p)
           else
             let p1 = p\<lparr>p_max_length := Some (if data_type = STRING_TYPE
                                                 then uint (pl ! (endp + 1))
                                                 else int (length v))\<rparr>
             in if chunks_remain = 0 then
                  (None, p1\<lparr>p_parent_folder := Some parent_folder, p_type := Some data_type,
                             p_name := name, p_hidden := hidden, p_value := VStr v,
                             p_obtained_time := now\<rparr>)
                else (None, p1))
        else if data_type = TEXT_SELECTION_TYPE then
          (case index_of 0 (drop (nul + 1) pl) of None \<Rightarrow> (None, p) | Some j \<Rightarrow>
           let endp = nul + 1 + j in
           case utf8_decode (py_slice pl (nul + 1) endp) of None \<Rightarrow> (None, p) | Some s \<Rightarrow>
           let options = split_on 59 s;
               four = py_slice pl (endp + 1) (endp + 5)
           in if length four \<noteq> 4 then (Some ValueError, p)
              else if chunks_remain = 0 then
                (None, p\<lparr>p_parent_folder := Some parent_folder, p_type := Some data_type,
                          p_name := name, p_hidden := hidden, p_value := VInt (uint (four ! 0)),
                          p_options := options, p_min := Some (uint (four ! 1)),
                          p_default := Some (uint (four ! 3)), p_max := Some (uint (four ! 2)),
                          p_obtained_time := now\<rparr>)
              else (None, p))
        else
          (let p1 = p\<lparr>p_parent_folder := Some parent_folder, p_type := Some data_type,
                      p_name := name, p_hidden := hidden\<rparr>
           in if chunks_remain = 0 then (None, p1\<lparr>p_obtained_time := now\<rparr>) else (None, p1)))"

text \<open>
  The three checks on a complete chunk list, in the source's order. \<open>x[1]\<close> raises
  IndexError on a chunk shorter than two bytes (\<open>None\<close>); the \<open>and\<close> chain reaches the
  comparison of \<open>x[0]\<close> only when the \<open>x[1]\<close> are \<open>0 .. len - 1\<close> from the back.
\<close>

definition chunks_valid :: "int \<Rightarrow> byte list list \<Rightarrow> bool option" where
  "chunks_valid n cs =
     (if list_ex (\<lambda>x. length x < 2) cs then None
      else Some (rev (map (\<lambda>x. uint (x ! 1)) cs) = map int [0..<length cs]
                 \<and> length (filter (\<lambda>x. uint (x ! 0) = n) cs) = length cs))"

definition process_frame :: "CRSFParam \<Rightarrow> crsf_frame \<Rightarrow> rat \<Rightarrow> py_error option \<times> CRSFParam" where
  "process_frame p frame now =
     (case frame_type frame of None \<Rightarrow> (Some IndexError, p) | Some t \<Rightarrow>
      if t \<noteq> MSG_TYPE_PARAM_ENTRY then (None, p)
      else
        case payload frame of None \<Rightarrow> (Some IndexError, p) | Some pl \<Rightarrow>
        if length (take 2 pl) \<noteq> 2 then (Some ValueError, p)
        else
          let chunks_remain = unat (pl ! 1) in
          if chunks_remain \<noteq> 0 then
            (let cs = (if p_chunks p = [] then replicate (chunks_remain + 1) None
                       else p_chunks p)
             in if length cs < chunks_remain + 1 then (Some IndexError, p)
                else (None, p\<lparr>p_chunks := cs[length cs - chunks_remain - 1 := Some pl]\<rparr>))
          else if p_chunks p \<noteq> [] then
            (let cs = (p_chunks p)[length (p_chunks p) - 1 := Some pl];
                 p1 = p\<lparr>p_chunks := cs\<rparr>
             in case those cs of
                  None \<Rightarrow> (None, p1)
                | Some xs \<Rightarrow>
                    (case chunks_valid (p_num p) xs of
                       None \<Rightarrow> (Some IndexError, p1)
                     | Some ok \<Rightarrow>
                         if ok then
                           decode_entry (p1\<lparr>p_chunks := []\<rparr>) chunks_remain
                             (take 2 (xs ! 0) @ concat (map (drop 2) xs)) now
                         else (None, p1)))
          else decode_entry p chunks_remain pl now)"

text \<open>Frames handed to one parameter in turn, each at its time; an exception ends the run.\<close>

fun process_frames :: "CRSFParam \<Rightarrow> (crsf_frame \<times> rat) list \<Rightarrow> py_error option \<times> CRSFParam" where
  "process_frames p [] = (None, p)"
| "process_frames p ((frame, now) # rest) =
     (case process_frame p frame now of
        (None, p') \<Rightarrow> process_frames p' rest
      | (Some e, p') \<Rightarrow> (Some e, p'))"

subsection \<open>The sender's side of a chunked entry\<close>

text \<open>
  Following the specification of the PARAM_ENTRY payload: the bytes of an entry are cut into
  the pieces \<open>cs\<close>; chunk \<open>i\<close> carries \<open>param_num\<close>, then
  \<open>chunks_remaining = length cs - 1 - i\<close>, then its piece.
\<close>

definition split_payloads :: "byte \<Rightarrow> byte list list \<Rightarrow> byte list list" where
  "split_payloads n cs =
     map (\<lambda>(i, c). [n, of_nat (length cs - 1 - i)] @ c) (enumerate 0 cs)"

section \<open>Auxiliary notions for the stream proofs\<close>

text \<open>
  A frame is \<open>good\<close> when \<open>create_frame\<close> builds it from a non-empty body; \<open>partial\<close>
  is a proper prefix of a good frame (or nothing), \<open>partial_of\<close> a proper prefix of the first
  frame of a list.
\<close>

definition good :: "crsf_frame \<Rightarrow> bool" where
  "good F = (\<exists>B. B \<noteq> [] \<and> create_frame B = Inr F)"

definition partial :: "byte list \<Rightarrow> bool" where
  "partial pre = (pre = [] \<or> (\<exists>F suf. good F \<and> suf \<noteq> [] \<and> pre @ suf = data F))"

definition partial_of :: "byte list \<Rightarrow> crsf_frame list \<Rightarrow> bool" where
  "partial_of pre Fs = (pre = [] \<or> (Fs \<noteq> [] \<and> (\<exists>suf. suf \<noteq> [] \<and> pre @ suf = data (hd Fs))))"

section \<open>The stream parser: frames in, frames out\<close>

lemma calc_crc8_range: "0 \<le> calc_crc8 d \<and> calc_crc8 d < 256"
proof -
  have "0 \<le> (x::int) AND 0xFF \<and> x AND 0xFF < 256" for x
  proof -
    have "x AND 255 \<le> 255" by (rule AND_upper2') simp_all
    moreover have "0 \<le> x AND 255" by simp
    ultimately show ?thesis by simp
  qed
  then show ?thesis
    unfolding calc_crc8_def finish_def calc_def by simp
qed

lemma uint_crc_byte: "uint (word_of_int (calc_crc8 d) :: byte) = calc_crc8 d"
  using calc_crc8_range [of d] by (simp add: uint_word_of_int)

lemma good_data:
  assumes "good F"
  obtains l B c where "data F = SYNC # l # B @ [c]" "B \<noteq> []" "unat l = length B + 1"
    "uint c = calc_crc8 B"
proof -
  from assms obtain B where B: "B \<noteq> []" "create_frame B = Inr F"
    unfolding good_def by blast
  from B(2) have len: "length B \<le> 254"
    by (auto simp: create_frame_def Let_def split: if_splits)
  from B(2) len have d: "data F = SYNC # (of_nat (length B + 1)) # B @ [word_of_int (calc_crc8 B)]"
    by (auto simp: create_frame_def Let_def split: if_splits)
  have "unat (of_nat (length B + 1) :: byte) = length B + 1"
    by (subst unat_of_nat) (use len in simp)
  with d B(1) uint_crc_byte [of B] that show thesis by blast
qed

lemma digest_loop_emit:
  assumes "good F" "SYNC \<notin> set J"
  shows "digest_loop (J @ data F @ rest) = (F # fst (digest_loop rest), snd (digest_loop rest))"
proof -
  from assms(1) obtain l B c where d: "data F = SYNC # l # B @ [c]" and B: "B \<noteq> []"
    and l: "unat l = length B + 1" and c: "uint c = calc_crc8 B"
    by (rule good_data)
  have dw: "dropWhile (\<lambda>b. b \<noteq> SYNC) (J @ data F @ rest) = data F @ rest"
  proof -
    have "\<And>x. x \<in> set J \<Longrightarrow> x \<noteq> SYNC" using assms(2) by auto
    then have "dropWhile (\<lambda>b. b \<noteq> SYNC) (J @ data F @ rest)
        = dropWhile (\<lambda>b. b \<noteq> SYNC) (data F @ rest)"
      by (rule dropWhile_append2)
    then show ?thesis using d by simp
  qed
  have len4: "4 \<le> length (J @ data F @ rest)"
    using d B by (cases B) simp_all
  have flen: "unat ((data F @ rest) ! 1) + 2 = length (data F)"
    using d l by simp
  have crcb: "(data F @ rest) ! (length (data F) - 1) = c"
    using d by (simp add: nth_append)
  have sl: "py_slice (data F @ rest) 2 (length (data F) - 1) = B"
    using d by (simp add: py_slice_def)
  have tk: "crsf_frame (take (length (data F)) (data F @ rest)) = F" by simp
  show ?thesis
    apply (subst digest_loop.simps)
    apply (simp only: len4 dw Let_def flen crcb sl c tk if_True)
    apply (simp add: d case_prod_beta)
    done
qed


lemma good_nonempty: "good F \<Longrightarrow> data F \<noteq> []"
  by (erule good_data) simp

lemma digest_loop_stuck:
  assumes "partial pre" "SYNC \<notin> set J"
  shows "\<exists>J'. digest_loop (J @ pre) = ([], J' @ pre) \<and> set J' \<subseteq> set J"
proof (cases "length (J @ pre) < 4")
  case True
  then have "digest_loop (J @ pre) = ([], J @ pre)"
    by (subst digest_loop.simps) simp
  then show ?thesis by blast
next
  case False
  have nj: "\<And>x. x \<in> set J \<Longrightarrow> x \<noteq> SYNC" using assms(2) by auto
  have dw0: "dropWhile (\<lambda>b. b \<noteq> SYNC) (J @ pre) = dropWhile (\<lambda>b. b \<noteq> SYNC) pre"
    using nj by (rule dropWhile_append2)
  show ?thesis
  proof (cases "pre = []")
    case True
    then have d1: "dropWhile (\<lambda>b. b \<noteq> SYNC) (J @ pre) = []"
      using dw0 by simp
    have "digest_loop (J @ pre) = ([], [])"
      apply (subst digest_loop.simps)
      apply (simp only: d1 Let_def)
      apply (use False in simp)
      done
    then show ?thesis using True by auto
  next
    case ne: False
    with assms(1) obtain F suf where F: "good F" "suf \<noteq> []" "pre @ suf = data F"
      unfolding partial_def by blast
    from F(1) obtain l B c where d: "data F = SYNC # l # B @ [c]" and B: "B \<noteq> []"
      and l: "unat l = length B + 1" and c: "uint c = calc_crc8 B"
      by (rule good_data)
    from ne F(3) d have hd: "hd pre = SYNC"
      by (cases pre) auto
    then have dw: "dropWhile (\<lambda>b. b \<noteq> SYNC) (J @ pre) = pre"
      using dw0 ne by (cases pre) auto
    have short: "length pre < length (data F)"
      using F(2) arg_cong [OF F(3), of length] by (cases suf) auto
    have l1: "1 < length pre \<Longrightarrow> unat (pre ! 1) + 2 = length (data F)"
    proof -
      assume "1 < length pre"
      then have "pre ! 1 = (pre @ suf) ! 1" by (simp add: nth_append)
      also have "\<dots> = l" using F(3) d by simp
      finally show ?thesis using l d by simp
    qed
    have "digest_loop (J @ pre) = ([], pre)"
      apply (subst digest_loop.simps)
      apply (simp only: dw Let_def)
      apply (use False short l1 in auto)
      done
    then show ?thesis by auto
  qed
qed

lemma digest_loop_frames:
  assumes "\<forall>F\<in>set Fs. good F" "partial pre"
  shows "digest_loop (concat (map data Fs) @ pre) = (Fs, pre)"
  using assms
proof (induction Fs)
  case Nil
  from digest_loop_stuck [OF Nil(2), of "[]"] show ?case by simp
next
  case (Cons F Fs)
  then have "good F" and IH: "digest_loop (concat (map data Fs) @ pre) = (Fs, pre)"
    by simp_all
  from digest_loop_emit [OF \<open>good F\<close>, of "[]" "concat (map data Fs) @ pre"] IH
  show ?case by simp
qed

lemma digest_loop_stream:
  assumes "SYNC \<notin> set J" "\<forall>F\<in>set Fs. good F" "partial pre"
  shows "\<exists>J'. digest_loop (J @ concat (map data Fs) @ pre) = (Fs, J' @ pre) \<and> set J' \<subseteq> set J"
proof (cases Fs)
  case Nil
  with digest_loop_stuck [OF assms(3,1)] show ?thesis by simp
next
  case (Cons F Fs')
  with assms(2) have "good F" "\<forall>F\<in>set Fs'. good F" by simp_all
  from digest_loop_emit [OF \<open>good F\<close> assms(1), of "concat (map data Fs') @ pre"]
    digest_loop_frames [OF \<open>\<forall>F\<in>set Fs'. good F\<close> assms(3)] Cons
  have "digest_loop (J @ concat (map data Fs) @ pre) = (Fs, [] @ pre)" by simp
  then show ?thesis by (intro exI [of _ "[]"]) simp
qed

lemma partial_of_partial: "\<forall>F\<in>set Fs. good F \<Longrightarrow> partial_of pre Fs \<Longrightarrow> partial pre"
  unfolding partial_of_def partial_def by (cases Fs) auto

lemma split_stream:
  assumes "\<forall>F\<in>set Fs. good F" "Z @ Y = concat (map data Fs)"
  shows "\<exists>Fs1 Fs2 pre. Fs = Fs1 @ Fs2 \<and> Z = concat (map data Fs1) @ pre
           \<and> pre @ Y = concat (map data Fs2) \<and> partial_of pre Fs2"
  using assms
proof (induction Fs arbitrary: Z)
  case Nil
  then show ?case by (simp add: partial_of_def)
next
  case (Cons F Fs)
  from Cons.prems(2) have "Z @ Y = data F @ concat (map data Fs)" by simp
  then have "(\<exists>u. Z = data F @ u \<and> u @ Y = concat (map data Fs))
      \<or> (\<exists>u. Z @ u = data F \<and> Y = u @ concat (map data Fs))"
    by (simp only: append_eq_append_conv2) blast
  then consider (whole) u where "Z = data F @ u" "u @ Y = concat (map data Fs)"
    | (part) u where "u \<noteq> []" "Z @ u = data F" "Y = u @ concat (map data Fs)"
  proof (elim disjE exE conjE)
    fix u assume "Z = data F @ u" "u @ Y = concat (map data Fs)"
    then show ?thesis by (rule that(1))
  next
    fix u assume u: "Z @ u = data F" "Y = u @ concat (map data Fs)"
    show ?thesis
    proof (cases "u = []")
      case True
      with u have "Z = data F @ []" "[] @ Y = concat (map data Fs)" by simp_all
      then show ?thesis by (rule that(1))
    next
      case False
      then show ?thesis using u by (rule that(2))
    qed
  qed
  then show ?case
  proof cases
    case whole
    from Cons.IH [OF _ whole(2)] Cons.prems(1)
    obtain Fs1 Fs2 pre where "Fs = Fs1 @ Fs2" "u = concat (map data Fs1) @ pre"
      "pre @ Y = concat (map data Fs2)" "partial_of pre Fs2" by auto
    then have "F # Fs = (F # Fs1) @ Fs2 \<and> Z = concat (map data (F # Fs1)) @ pre
       \<and> pre @ Y = concat (map data Fs2) \<and> partial_of pre Fs2"
      using whole(1) by simp
    then show ?thesis by blast
  next
    case part
    then have "F # Fs = [] @ (F # Fs) \<and> Z = concat (map data []) @ Z
       \<and> Z @ Y = concat (map data (F # Fs)) \<and> partial_of Z (F # Fs)"
      by (auto simp: partial_of_def)
    then show ?thesis by blast
  qed
qed

lemma digest_all_stream:
  assumes "buf ps = Jb @ pre" "SYNC \<notin> set (Jb @ Jr)" "pre \<noteq> [] \<longrightarrow> Jr = []"
    "\<forall>F\<in>set Fs. good F" "partial_of pre Fs"
    "pre @ concat pieces = Jr @ concat (map data Fs)"
  shows "fst (digest_all ps pieces) = Fs
       \<and> set (buf (snd (digest_all ps pieces))) \<subseteq> set (Jb @ Jr)
       \<and> silent (snd (digest_all ps pieces)) = silent ps"
  using assms
proof (induction pieces arbitrary: ps Jb Jr pre Fs)
  case Nil
  have "pre = []"
  proof (rule ccontr)
    assume ne: "pre \<noteq> []"
    with Nil.prems(3,5,6) obtain suf where "Fs \<noteq> []" "suf \<noteq> []" "pre @ suf = data (hd Fs)"
      "pre = concat (map data Fs)"
      by (auto simp: partial_of_def)
    then have "length pre < length (data (hd Fs))" "length (data (hd Fs)) \<le> length pre"
      using arg_cong [OF \<open>pre @ suf = data (hd Fs)\<close>, of length]
      by (cases suf; cases Fs; auto)+
    then show False by simp
  qed
  with Nil.prems(6) have "Jr = []" "concat (map data Fs) = []" by simp_all
  with Nil.prems(4) have "Fs = []"
    by (cases Fs) (auto dest: good_nonempty)
  with Nil.prems(1) \<open>pre = []\<close> show ?case by simp
next
  case (Cons p pieces)
  have "\<exists>Fs1 Fs2 J' Jr' pre'. Fs = Fs1 @ Fs2 \<and> digest_loop (buf ps @ p) = (Fs1, J' @ pre')
      \<and> SYNC \<notin> set (J' @ Jr') \<and> set (J' @ Jr') \<subseteq> set (Jb @ Jr) \<and> (pre' \<noteq> [] \<longrightarrow> Jr' = [])
      \<and> partial_of pre' Fs2 \<and> pre' @ concat pieces = Jr' @ concat (map data Fs2)"
  proof -
    from Cons.prems(6) have eq: "(pre @ p) @ concat pieces = Jr @ concat (map data Fs)" by simp
    then have "(\<exists>u. pre @ p = Jr @ u \<and> u @ concat pieces = concat (map data Fs))
      \<or> (\<exists>u. (pre @ p) @ u = Jr \<and> concat pieces = u @ concat (map data Fs))"
      by (simp only: append_eq_append_conv2) blast
    then show ?thesis
    proof (elim disjE exE conjE)
      fix u assume u: "pre @ p = Jr @ u" "u @ concat pieces = concat (map data Fs)"
      from split_stream [OF Cons.prems(4) u(2)]
      obtain Fs1 Fs2 pre' where sp: "Fs = Fs1 @ Fs2" "u = concat (map data Fs1) @ pre'"
        "pre' @ concat pieces = concat (map data Fs2)" "partial_of pre' Fs2" by blast
      from sp(1) Cons.prems(4) have g: "\<forall>F\<in>set Fs1. good F" "\<forall>F\<in>set Fs2. good F" by auto
      from digest_loop_stream [OF Cons.prems(2) g(1) partial_of_partial [OF g(2) sp(4)]]
      obtain J' where J': "digest_loop ((Jb @ Jr) @ concat (map data Fs1) @ pre') = (Fs1, J' @ pre')"
        "set J' \<subseteq> set (Jb @ Jr)" by blast
      have "buf ps @ p = (Jb @ Jr) @ concat (map data Fs1) @ pre'"
        using Cons.prems(1) u(1) sp(2) by simp
      with J' Cons.prems(2) sp have "Fs = Fs1 @ Fs2 \<and> digest_loop (buf ps @ p) = (Fs1, J' @ pre')
        \<and> SYNC \<notin> set (J' @ []) \<and> set (J' @ []) \<subseteq> set (Jb @ Jr) \<and> (pre' \<noteq> [] \<longrightarrow> [] = [])
        \<and> partial_of pre' Fs2 \<and> pre' @ concat pieces = [] @ concat (map data Fs2)"
        by auto
      then show ?thesis by blast
    next
      fix u assume u: "(pre @ p) @ u = Jr" "concat pieces = u @ concat (map data Fs)"
      then have ns: "SYNC \<notin> set (Jb @ pre @ p)" "SYNC \<notin> set u" using Cons.prems(2) by auto
      have "partial []" by (simp add: partial_def)
      from digest_loop_stuck [OF this ns(1)]
      obtain J' where J': "digest_loop (Jb @ pre @ p) = ([], J')" "set J' \<subseteq> set (Jb @ pre @ p)"
        by auto
      have "Fs = [] @ Fs \<and> digest_loop (buf ps @ p) = ([], J' @ [])
        \<and> SYNC \<notin> set (J' @ u) \<and> set (J' @ u) \<subseteq> set (Jb @ Jr) \<and> ([] \<noteq> [] \<longrightarrow> u = [])
        \<and> partial_of [] Fs \<and> [] @ concat pieces = u @ concat (map data Fs)"
        using J' ns u Cons.prems(1) by (auto simp: partial_of_def)
      then show ?thesis by blast
    qed
  qed
  then obtain Fs1 Fs2 J' Jr' pre' where st: "Fs = Fs1 @ Fs2"
      "digest_loop (buf ps @ p) = (Fs1, J' @ pre')"
      "SYNC \<notin> set (J' @ Jr')" "set (J' @ Jr') \<subseteq> set (Jb @ Jr)" "pre' \<noteq> [] \<longrightarrow> Jr' = []"
      "partial_of pre' Fs2" "pre' @ concat pieces = Jr' @ concat (map data Fs2)"
    by blast
  let ?ps1 = "ps\<lparr>buf := J' @ pre'\<rparr>"
  have d: "digest ps p = (Fs1, ?ps1)"
    using st(2) by (simp add: digest_def)
  from st(1) Cons.prems(4) have g2: "\<forall>F\<in>set Fs2. good F" by auto
  have b1: "buf ?ps1 = J' @ pre'" by simp
  from Cons.IH [OF b1 st(3) st(5) g2 st(6) st(7)]
  have IH: "fst (digest_all ?ps1 pieces) = Fs2"
    "set (buf (snd (digest_all ?ps1 pieces))) \<subseteq> set (J' @ Jr')"
    "silent (snd (digest_all ?ps1 pieces)) = silent ps" by simp_all
  show ?case
    using d IH st(1,4) by (simp add: case_prod_beta) blast
qed

lemma digest_loop_inv:
  "\<forall>f\<in>set (fst (digest_loop d)).
     2 \<le> length (data f) \<and> data f ! 0 = SYNC \<and> length (data f) = unat (data f ! 1) + 2
     \<and> uint (last (data f)) = calc_crc8 (py_slice (data f) 2 (length (data f) - 1))"
proof (induction d rule: digest_loop.induct)
  case (1 d)
  define d1 where "d1 = dropWhile (\<lambda>b. b \<noteq> SYNC) d"
  define flen where "flen = unat (d1 ! 1) + 2"
  show ?case
  proof (cases "4 \<le> length d \<and> 1 < length d1 \<and> flen \<le> length d1")
    case False
    then show ?thesis
      by (subst digest_loop.simps) (auto simp: Let_def d1_def flen_def)
  next
    case True
    then have hd1: "d1 ! 0 = SYNC"
      using hd_dropWhile [of "\<lambda>b. b \<noteq> SYNC" d] unfolding d1_def
      by (cases "dropWhile (\<lambda>b. b \<noteq> SYNC) d") auto
    show ?thesis
    proof (cases "uint (d1 ! (flen - 1)) = calc_crc8 (py_slice d1 2 (flen - 1))")
      case crc: True
      let ?f = "take flen d1"
      have fl: "2 \<le> flen" "length ?f = flen"
        using True by (simp_all add: flen_def)
      then have "?f \<noteq> []" by auto
      then have "last ?f = ?f ! (length ?f - 1)"
        by (rule last_conv_nth)
      also have "\<dots> = ?f ! (flen - 1)" by (simp only: fl(2))
      also have "\<dots> = d1 ! (flen - 1)" using fl(1) by simp
      finally have lst: "last ?f = d1 ! (flen - 1)" .
      have sl: "py_slice ?f 2 (length ?f - 1) = py_slice d1 2 (flen - 1)"
        using fl by (simp add: py_slice_def min_def)
      have f: "2 \<le> length ?f" "?f ! 0 = SYNC" "length ?f = unat (?f ! 1) + 2"
        "uint (last ?f) = calc_crc8 (py_slice ?f 2 (length ?f - 1))"
        using fl hd1 crc lst sl by (simp_all add: flen_def)
      have IH: "\<forall>f\<in>set (fst (digest_loop (drop flen d1))).
         2 \<le> length (data f) \<and> data f ! 0 = SYNC \<and> length (data f) = unat (data f ! 1) + 2
         \<and> uint (last (data f)) = calc_crc8 (py_slice (data f) 2 (length (data f) - 1))"
        using "1.IH"(1) [OF _ d1_def _ flen_def _ refl refl crc] True by simp
      have "digest_loop d = (crsf_frame ?f # fst (digest_loop (drop flen d1)),
                             snd (digest_loop (drop flen d1)))"
        using True crc
        by (subst digest_loop.simps) (simp add: Let_def d1_def flen_def case_prod_beta)
      then show ?thesis using f IH by simp
    next
      case crc: False
      have IH: "\<forall>f\<in>set (fst (digest_loop (drop 1 d1))).
         2 \<le> length (data f) \<and> data f ! 0 = SYNC \<and> length (data f) = unat (data f ! 1) + 2
         \<and> uint (last (data f)) = calc_crc8 (py_slice (data f) 2 (length (data f) - 1))"
        using "1.IH"(2) [OF _ d1_def _ flen_def _ refl refl crc] True by simp
      have "digest_loop d = digest_loop (drop 1 d1)"
        using True crc
        by (subst digest_loop.simps) (simp add: Let_def d1_def flen_def)
      then show ?thesis using IH by simp
    qed
  qed
qed



lemma good_list_all2:
  "list_all2 (\<lambda>B F. B \<noteq> [] \<and> create_frame B = Inr F) Bs Fs \<Longrightarrow> \<forall>F\<in>set Fs. good F"
  by (induction rule: list_all2_induct) (auto simp: good_def)

lemma parser_eqI: "buf p = [] \<Longrightarrow> silent p = s \<Longrightarrow> (p :: crsf_parser) = parser_init s"
  by (simp add: parser_init_def)

text \<open>
  Claim C4. Frames built by \<open>create_frame\<close> from non-empty bodies (a body of more than
  254 bytes makes \<open>create_frame\<close> raise), concatenated and cut into arbitrary consecutive
  pieces that are fed in order to a fresh parser, come out as exactly those frames, in order,
  and nothing stays in the buffer. One body is the single-frame round trip.
\<close>

theorem stream_roundtrip:
  assumes "list_all2 (\<lambda>B F. B \<noteq> [] \<and> create_frame B = Inr F) Bs Fs"
    and "concat pieces = concat (map data Fs)"
  shows "digest_all (parser_init s) pieces = (Fs, parser_init s)"
proof -
  have g: "\<forall>F\<in>set Fs. good F" using assms(1) by (rule good_list_all2)
  have "fst (digest_all (parser_init s) pieces) = Fs
       \<and> set (buf (snd (digest_all (parser_init s) pieces))) \<subseteq> set ([] @ [])
       \<and> silent (snd (digest_all (parser_init s) pieces)) = silent (parser_init s)"
    by (rule digest_all_stream [where pre = "[]"])
       (use g assms(2) in \<open>simp_all add: parser_init_def partial_of_def\<close>)
  then have "fst (digest_all (parser_init s) pieces) = Fs"
    "snd (digest_all (parser_init s) pieces) = parser_init s"
    by (auto intro: parser_eqI simp: parser_init_def)
  then show ?thesis by (metis prod.collapse)
qed

theorem stream_roundtrip_witness:
  "list_all2 (\<lambda>B F. B \<noteq> [] \<and> create_frame B = Inr F)
     [[0x28, 0x00, 0xEA], [0x2C, 0xEE, 0xC8, 0x01, 0x00]]
     [crsf_frame [0xC8, 0x04, 0x28, 0x00, 0xEA, 0x54],
      crsf_frame [0xC8, 0x06, 0x2C, 0xEE, 0xC8, 0x01, 0x00, 0x67]]
   \<and> digest_all (parser_init True)
        [[0xC8], [0x04, 0x28, 0x00, 0xEA, 0x54, 0xC8, 0x06], [], [0x2C, 0xEE, 0xC8, 0x01], [0x00, 0x67]]
      = ([crsf_frame [0xC8, 0x04, 0x28, 0x00, 0xEA, 0x54],
          crsf_frame [0xC8, 0x06, 0x2C, 0xEE, 0xC8, 0x01, 0x00, 0x67]], parser_init True)"
proof -
  have h: "list_all2 (\<lambda>B F. B \<noteq> [] \<and> create_frame B = Inr F)
     [[0x28, 0x00, 0xEA], [0x2C, 0xEE, 0xC8, 0x01, 0x00]]
     [crsf_frame [0xC8, 0x04, 0x28, 0x00, 0xEA, 0x54],
      crsf_frame [0xC8, 0x06, 0x2C, 0xEE, 0xC8, 0x01, 0x00, 0x67]]"
    by code_simp
  show ?thesis
    using h stream_roundtrip [OF h, of
      "[[0xC8], [0x04, 0x28, 0x00, 0xEA, 0x54, 0xC8, 0x06], [], [0x2C, 0xEE, 0xC8, 0x01], [0x00, 0x67]]" True]
    by simp
qed





text \<open>
  Claim C10. Every frame yielded by \<open>digest\<close> starts with SYNC, is as long as its LEN byte
  plus 2, and ends with the CRC8 (polynomial 0xD5, initial value 0, one zero byte folded in by
  \<open>finish\<close>) of its bytes from offset 2 up to the byte before the last.
\<close>

theorem digest_frames_invariant:
  "\<forall>f\<in>set (fst (digest ps new)).
     byte_at (data f) 0 = Some SYNC
     \<and> frame_len f = Some (length (data f))
     \<and> uint (last (data f))
         = finish (crc_digest \<lparr>val = 0x00, poly = 0xD5\<rparr>
                     (map uint (py_slice (data f) 2 (length (data f) - 1))))"
  using digest_loop_inv [of "buf ps @ new"]
  by (auto simp: digest_def case_prod_beta byte_at_def frame_len_def calc_crc8_def crc8_init_def
      RESET_VALUE_def POLYNOM_1_def)

theorem digest_frames_invariant_witness:
  "crsf_frame [0xC8, 0x04, 0x28, 0x00, 0xEA, 0x54]
     \<in> set (fst (digest (parser_init True) [0x00, 0xC8, 0x04, 0x28, 0x00, 0xEA, 0x54, 0xC8]))
   \<and> byte_at [0xC8, 0x04, 0x28, 0x00, 0xEA, 0x54] 0 = Some SYNC
   \<and> frame_len (crsf_frame [0xC8, 0x04, 0x28, 0x00, 0xEA, 0x54]) = Some 6
   \<and> uint (0x54 :: byte)
       = finish (crc_digest \<lparr>val = 0x00, poly = 0xD5\<rparr> (map uint [0x28, 0x00, 0xEA :: byte]))"
proof -
  have m: "crsf_frame [0xC8, 0x04, 0x28, 0x00, 0xEA, 0x54]
     \<in> set (fst (digest (parser_init True) [0x00, 0xC8, 0x04, 0x28, 0x00, 0xEA, 0x54, 0xC8]))"
    by code_simp
  from digest_frames_invariant [of "parser_init True" "[0x00, 0xC8, 0x04, 0x28, 0x00, 0xEA, 0x54, 0xC8]"] m
  have "byte_at (data (crsf_frame [0xC8, 0x04, 0x28, 0x00, 0xEA, 0x54])) 0 = Some SYNC
     \<and> frame_len (crsf_frame [0xC8, 0x04, 0x28, 0x00, 0xEA, 0x54])
         = Some (length (data (crsf_frame [0xC8, 0x04, 0x28, 0x00, 0xEA, 0x54])))
     \<and> uint (last (data (crsf_frame [0xC8, 0x04, 0x28, 0x00, 0xEA, 0x54])))
         = finish (crc_digest \<lparr>val = 0x00, poly = 0xD5\<rparr>
             (map uint (py_slice (data (crsf_frame [0xC8, 0x04, 0x28, 0x00, 0xEA, 0x54])) 2
                (length (data (crsf_frame [0xC8, 0x04, 0x28, 0x00, 0xEA, 0x54])) - 1))))"
    by blast
  with m show ?thesis by (simp add: py_slice_def)
qed

text \<open>
  Claim C7, as amended. The six bytes C8 04 28 00 EA 54 give one PING frame with
  destination 0x00, origin 0xEA, extended. The seven bytes of the scenario have a stray C8 in
  front of the CRC byte: LEN = 4 makes the frame six bytes long, its last byte C8 is not the
  CRC 0x54, and no frame is yielded.
\<close>

theorem ping_scenario:
  "fst (digest (parser_init s) [0xC8, 0x04, 0x28, 0x00, 0xEA, 0x54])
     = [crsf_frame [0xC8, 0x04, 0x28, 0x00, 0xEA, 0x54]]
   \<and> frame_type (crsf_frame [0xC8, 0x04, 0x28, 0x00, 0xEA, 0x54]) = Some 0x28
   \<and> destination (crsf_frame [0xC8, 0x04, 0x28, 0x00, 0xEA, 0x54]) = Some (Some 0x00)
   \<and> origin (crsf_frame [0xC8, 0x04, 0x28, 0x00, 0xEA, 0x54]) = Some (Some 0xEA)
   \<and> is_extended (crsf_frame [0xC8, 0x04, 0x28, 0x00, 0xEA, 0x54]) = Some True
   \<and> fst (digest (parser_init s) [0xC8, 0x04, 0x28, 0x00, 0xEA, 0xC8, 0x54]) = []"
proof -
  have l: "digest_loop [0xC8, 0x04, 0x28, 0x00, 0xEA, 0x54]
     = ([crsf_frame [0xC8, 0x04, 0x28, 0x00, 0xEA, 0x54]], [])"
    "digest_loop [0xC8, 0x04, 0x28, 0x00, 0xEA, 0xC8, 0x54] = ([], [0xC8, 0x54])"
    by code_simp+
  have a: "frame_type (crsf_frame [0xC8, 0x04, 0x28, 0x00, 0xEA, 0x54]) = Some 0x28"
    "destination (crsf_frame [0xC8, 0x04, 0x28, 0x00, 0xEA, 0x54]) = Some (Some 0x00)"
    "origin (crsf_frame [0xC8, 0x04, 0x28, 0x00, 0xEA, 0x54]) = Some (Some 0xEA)"
    "is_extended (crsf_frame [0xC8, 0x04, 0x28, 0x00, 0xEA, 0x54]) = Some True"
    by code_simp+
  show ?thesis using l a by (simp add: digest_def parser_init_def)
qed

theorem ping_scenario_counterexample:
  "fst (digest (parser_init True) [0xC8, 0x04, 0x28, 0x00, 0xEA, 0xC8, 0x54]) = []"
  by code_simp

section \<open>The int32 codec\<close>

lemma decode_int32_unsigned:
  "decode_int32 [a, b, c, d]
     = Some (push_bit 24 a OR push_bit 16 b OR push_bit 8 c OR d)"
  by (simp add: decode_int32_def Let_def not_int_def)

text \<open>
  Claim C5, evaluated on the code. \<open>- (~x) - 1\<close> is \<open>x\<close> itself, so the branch taken when
  the sign bit is set returns the unsigned value: four bytes never decode to a negative
  number, FF FF FF FF decodes to 4294967295 and not to -1, and the encoding of -1 does not
  decode back to -1.
\<close>

theorem decode_int32_sign_bit:
  "(\<exists>v. decode_int32 (map uint [a, b, c, d :: byte]) = Some v \<and> 0 \<le> v)
   \<and> decode_int32 (map uint [0xFF, 0xFF, 0xFF, 0xFF :: byte]) = Some 4294967295
   \<and> encode_int32 (- 1) = [0xFF, 0xFF, 0xFF, 0xFF]
   \<and> decode_int32 (encode_int32 (- 1)) = Some 4294967295"
proof -
  have "decode_int32 (map uint [a, b, c, d]) = Some (push_bit 24 (uint a) OR push_bit 16 (uint b)
          OR push_bit 8 (uint c) OR uint d)"
    by (simp add: decode_int32_unsigned)
  moreover have "0 \<le> push_bit 24 (uint a) OR push_bit 16 (uint b) OR push_bit 8 (uint c) OR uint d"
    by simp
  moreover have "encode_int32 (- 1) = [0xFF, 0xFF, 0xFF, 0xFF]"
    by (simp add: encode_int32_def)
  moreover have "decode_int32 [0xFF, 0xFF, 0xFF, 0xFF] = Some 4294967295"
    by (simp add: decode_int32_unsigned)
  ultimately show ?thesis by simp
qed

section \<open>Parameter entries: chunk assembly and decoding\<close>

lemma decode_entry_prefix:
  "decode_entry p c (a # b # E) now = decode_entry p c (a' # b' # E) now"
  unfolding decode_entry_def py_slice_def
  by (simp add: nth_Cons' drop_Cons' take_Cons' Let_def cong: option.case_cong if_cong)

lemma those_map_Some: "those (map Some xs) = Some xs"
  by (induction xs) simp_all

lemma process_frame_chunk:
  assumes "frame_type f = Some MSG_TYPE_PARAM_ENTRY" "payload f = Some pl" "2 \<le> length pl"
    "unat (pl ! 1) = Suc m"
    "p_chunks p = map Some done @ replicate (Suc (Suc m)) None \<or> p_chunks p = [] \<and> done = []"
  shows "process_frame p f t = (None, p\<lparr>p_chunks := map Some (done @ [pl]) @ replicate (Suc m) None\<rparr>)"
proof -
  let ?cs = "map Some done @ replicate (Suc (Suc m)) None"
  have cs: "(if p_chunks p = [] then replicate (Suc m + 1) None else p_chunks p) = ?cs"
    using assms(5) by auto
  have upd: "?cs[length ?cs - Suc m - 1 := Some pl] = map Some (done @ [pl]) @ replicate (Suc m) None"
    by (simp add: list_update_append)
  have len: "\<not> length ?cs < Suc m + 1" by simp
  show ?thesis
    unfolding process_frame_def
    using assms(1-4)
    apply (simp only: option.case Let_def cs)
    apply (simp only: upd len)
    apply simp
    done
qed


lemma process_frames_append:
  "process_frames p (xs @ ys) =
     (case process_frames p xs of (None, p') \<Rightarrow> process_frames p' ys | (Some e, p') \<Rightarrow> (Some e, p'))"
  by (induction p xs rule: process_frames.induct) (auto split: prod.splits option.splits)

lemma process_frames_chunks:
  assumes "map (\<lambda>x. frame_type (fst x)) fs = replicate (length fs) (Some MSG_TYPE_PARAM_ENTRY)"
    "map (\<lambda>x. payload (fst x)) fs = map Some pls"
    "\<forall>i<length pls. 2 \<le> length (pls ! i) \<and> unat (pls ! i ! 1) = length pls - i"
    "p_chunks p = map Some done @ replicate (Suc (length pls)) None \<or> p_chunks p = [] \<and> done = []"
    "fs \<noteq> []"
  shows "process_frames p fs = (None, p\<lparr>p_chunks := map Some (done @ pls) @ [None]\<rparr>)"
  using assms
proof (induction fs arbitrary: p "done" pls)
  case Nil
  then show ?case by simp
next
  case (Cons ft fs)
  obtain f t where ft: "ft = (f, t)" by (cases ft)
  from Cons.prems(2) ft have "payload f # map (\<lambda>x. payload (fst x)) fs = map Some pls"
    by simp
  then obtain pl pls' where pls: "pls = pl # pls'"
    "payload f = Some pl" "map (\<lambda>x. payload (fst x)) fs = map Some pls'"
    unfolding Cons_eq_map_conv by blast
  have len: "length pls' = length fs"
    using map_eq_imp_length_eq [OF pls(3)] by simp
  from Cons.prems(1) ft have ty: "frame_type f = Some MSG_TYPE_PARAM_ENTRY"
    "map (\<lambda>x. frame_type (fst x)) fs = replicate (length fs) (Some MSG_TYPE_PARAM_ENTRY)"
    by simp_all
  from Cons.prems(3) pls(1) have pl: "2 \<le> length pl" "unat (pl ! 1) = Suc (length pls')"
    by (auto dest: spec [of _ 0])
  have rest: "\<forall>i<length pls'. 2 \<le> length (pls' ! i) \<and> unat (pls' ! i ! 1) = length pls' - i"
  proof (intro allI impI)
    fix i assume "i < length pls'"
    then have "Suc i < length pls" using pls(1) by simp
    with Cons.prems(3) have "2 \<le> length (pls ! Suc i) \<and> unat (pls ! Suc i ! 1) = length pls - Suc i"
      by blast
    then show "2 \<le> length (pls' ! i) \<and> unat (pls' ! i ! 1) = length pls' - i"
      using pls(1) by simp
  qed
  let ?p1 = "p\<lparr>p_chunks := map Some (done @ [pl]) @ replicate (Suc (length pls')) None\<rparr>"
  have step: "process_frame p f t = (None, ?p1)"
    by (rule process_frame_chunk [OF ty(1) pls(2) pl]) (use Cons.prems(4) pls(1) in auto)
  show ?case
  proof (cases "fs = []")
    case True
    with len have "pls' = []" by simp
    with step True ft pls(1) show ?thesis by simp
  next
    case False
    have "process_frames ?p1 fs
      = (None, ?p1\<lparr>p_chunks := map Some ((done @ [pl]) @ pls') @ [None]\<rparr>)"
      by (rule Cons.IH [OF ty(2) pls(3) rest _ False]) simp
    with step ft pls(1) show ?thesis by simp
  qed
qed

lemma process_frame_last:
  assumes "frame_type f = Some MSG_TYPE_PARAM_ENTRY" "payload f = Some pl" "2 \<le> length pl"
    "unat (pl ! 1) = 0" "p_chunks p = map Some done @ [None]"
    "chunks_valid (p_num p) (done @ [pl]) = Some True"
  shows "process_frame p f t
     = decode_entry (p\<lparr>p_chunks := []\<rparr>) 0
         (take 2 ((done @ [pl]) ! 0) @ concat (map (drop 2) (done @ [pl]))) t"
proof -
  have upd: "(p_chunks p)[length (p_chunks p) - 1 := Some pl] = map Some (done @ [pl])"
    using assms(5) by (simp add: list_update_append)
  have ne: "p_chunks p \<noteq> []" using assms(5) by simp
  show ?thesis
    unfolding process_frame_def
    using assms(1-4) ne
    apply (simp only: option.case Let_def upd those_map_Some)
    apply (simp add: assms(6))
    done
qed

lemma process_frame_single:
  assumes "frame_type f = Some MSG_TYPE_PARAM_ENTRY" "payload f = Some pl" "2 \<le> length pl"
    "unat (pl ! 1) = 0" "p_chunks p = []"
  shows "process_frame p f t = decode_entry p 0 pl t"
  unfolding process_frame_def using assms by simp

lemma length_split_payloads: "length (split_payloads b cs) = length cs"
  by (simp add: split_payloads_def)

lemma nth_split_payloads:
  "i < length cs \<Longrightarrow> split_payloads b cs ! i = [b, of_nat (length cs - 1 - i)] @ cs ! i"
  by (simp add: split_payloads_def nth_enumerate_eq)

lemma drop2_split_payloads: "map (drop 2) (split_payloads b cs) = cs"
  by (rule nth_equalityI) (simp_all add: length_split_payloads nth_split_payloads)

lemma unat_byte_of_nat: "j < 256 \<Longrightarrow> unat (of_nat j :: byte) = j"
  by (subst unat_of_nat) simp

lemma chunks_valid_split:
  assumes "length cs \<le> 256" "uint b = n"
  shows "chunks_valid n (split_payloads b cs) = Some True"
proof -
  let ?xs = "split_payloads b cs"
  have short: "\<not> list_ex (\<lambda>x. length x < 2) ?xs"
    by (auto simp: list_ex_iff in_set_conv_nth length_split_payloads nth_split_payloads)
  have "rev (map (\<lambda>x. uint (x ! 1)) ?xs) = map int [0..<length ?xs]"
  proof (rule nth_equalityI)
    show "length (rev (map (\<lambda>x. uint (x ! 1)) ?xs)) = length (map int [0..<length ?xs])" by simp
  next
    fix i assume "i < length (rev (map (\<lambda>x. uint (x ! 1)) ?xs))"
    then have i: "i < length cs" by (simp add: length_split_payloads)
    then have j: "length cs - Suc i < length cs" by simp
    have "rev (map (\<lambda>x. uint (x ! 1)) ?xs) ! i = uint (?xs ! (length cs - Suc i) ! 1)"
      using i j by (simp add: rev_nth length_split_payloads)
    also have "\<dots> = uint (of_nat (length cs - 1 - (length cs - Suc i)) :: byte)"
      using j by (simp add: nth_split_payloads)
    also have "length cs - 1 - (length cs - Suc i) = i" using i by simp
    also have "uint (of_nat i :: byte) = int i"
    proof -
      have i256: "i < 256" using i assms(1) by simp
      have "uint (of_nat i :: byte) = int (unat (of_nat i :: byte))" by (rule uint_nat)
      then show ?thesis by (simp only: unat_byte_of_nat [OF i256])
    qed
    finally show "rev (map (\<lambda>x. uint (x ! 1)) ?xs) ! i = map int [0..<length ?xs] ! i"
      using i by (simp add: length_split_payloads)
  qed
  moreover have "filter (\<lambda>x. uint (x ! 0) = n) ?xs = ?xs"
    by (rule filter_True)
       (auto simp: in_set_conv_nth length_split_payloads nth_split_payloads assms(2))
  ultimately show ?thesis
    using short by (simp add: chunks_valid_def)
qed

lemma process_frames_single: "process_frames p [(f, t)] = process_frame p f t"
  by (simp split: prod.splits option.splits)

text \<open>
  Claim C3. A parameter with no chunk pending receives an entry cut into \<open>k + 1\<close>
  pieces (\<open>1 \<le> k \<le> 255\<close>), piece \<open>i\<close> in a PARAM_ENTRY frame whose payload is the
  parameter's own number, \<open>chunks_remaining = k - i\<close> and the piece. The run of these frames
  ends in exactly the result and the parameter state (every attribute, \<open>obtained_time\<close>
  included) of the single frame that carries the whole entry with \<open>chunks_remaining = 0\<close>,
  handed over at the time of the last chunk.
\<close>

theorem chunked_equals_single:
  assumes "p_chunks p = []" "0 \<le> p_num p" "p_num p < 256"
    and "2 \<le> length cs" "length cs \<le> 256"
    and "map (\<lambda>x. frame_type (fst x)) frames = replicate (length cs) (Some MSG_TYPE_PARAM_ENTRY)"
    and "map (\<lambda>x. payload (fst x)) frames = map Some (split_payloads (word_of_int (p_num p)) cs)"
    and "frame_type single = Some MSG_TYPE_PARAM_ENTRY"
    and "payload single = Some ([word_of_int (p_num p), 0] @ concat cs)"
  shows "process_frames p frames = process_frame p single (snd (last frames))"
proof -
  define b :: byte where "b = word_of_int (p_num p)"
  define xs where "xs = split_payloads b cs"
  define n where "n = length cs"
  have ub: "uint b = p_num p"
    using assms(2,3) by (simp add: b_def uint_word_of_int)
  have lx: "length xs = n" by (simp add: xs_def n_def length_split_payloads)
  have lf: "length frames = n"
    using map_eq_imp_length_eq [OF assms(7)] lx by (simp add: xs_def b_def)
  have n2: "2 \<le> n" "n \<le> 256" using assms(4,5) by (simp_all add: n_def)
  then have fne: "frames \<noteq> []" "xs \<noteq> []" using lf lx by auto
  obtain f t where ft: "last frames = (f, t)" by (cases "last frames")
  have fr: "frames = butlast frames @ [(f, t)]"
    using fne(1) ft by (metis append_butlast_last_id)
  have nx: "\<And>i. i < n \<Longrightarrow> xs ! i = [b, of_nat (n - 1 - i)] @ cs ! i"
    by (simp add: xs_def n_def nth_split_payloads)
  let ?pls = "butlast xs"
  let ?pl = "last xs"
  have pl: "?pl = [b, 0] @ cs ! (n - 1)"
    using fne(2) lx n2 nx [of "n - 1"] by (simp add: last_conv_nth)
  have ty_all: "\<And>x. x \<in> set frames \<Longrightarrow> frame_type (fst x) = Some MSG_TYPE_PARAM_ENTRY"
  proof -
    fix x assume "x \<in> set frames"
    then have "frame_type (fst x) \<in> set (map (\<lambda>x. frame_type (fst x)) frames)" by auto
    then show "frame_type (fst x) = Some MSG_TYPE_PARAM_ENTRY"
      unfolding assms(6) by simp
  qed
  have ty1: "map (\<lambda>x. frame_type (fst x)) (butlast frames)
      = replicate (length (butlast frames)) (Some MSG_TYPE_PARAM_ENTRY)"
    by (rule replicate_eqI) (auto dest: in_set_butlastD ty_all)
  have ty2: "frame_type f = Some MSG_TYPE_PARAM_ENTRY"
    using ty_all [of "(f, t)"] fne(1) ft last_in_set [of frames] by simp
  have pay: "map (\<lambda>x. payload (fst x)) frames = map Some xs"
    using assms(7) by (simp add: xs_def b_def)
  have pay1: "map (\<lambda>x. payload (fst x)) (butlast frames) = map Some ?pls"
    using arg_cong [OF pay, of butlast] by (simp add: map_butlast)
  have pay2: "payload f = Some ?pl"
    using arg_cong [OF pay, of last] fne ft by (simp add: last_map)
  have rest: "\<forall>i<length ?pls. 2 \<le> length (?pls ! i) \<and> unat (?pls ! i ! 1) = length ?pls - i"
  proof (intro allI impI)
    fix i assume "i < length ?pls"
    then have i: "i < n - 1" using lx by simp
    then have "?pls ! i = [b, of_nat (n - 1 - i)] @ cs ! i"
      using nx [of i] lx by (simp add: nth_butlast)
    moreover have "unat (of_nat (n - 1 - i) :: byte) = n - 1 - i"
      by (rule unat_byte_of_nat) (use n2 in simp)
    ultimately show "2 \<le> length (?pls ! i) \<and> unat (?pls ! i ! 1) = length ?pls - i"
      using lx by simp
  qed
  have bne: "butlast frames \<noteq> []"
    using lf n2 by (cases frames rule: rev_cases) auto
  let ?p1 = "p\<lparr>p_chunks := map Some ([] @ ?pls) @ [None]\<rparr>"
  have s1: "process_frames p (butlast frames) = (None, ?p1)"
    by (rule process_frames_chunks [OF ty1 pay1 rest _ bne]) (use assms(1) in simp)
  have valid: "chunks_valid (p_num ?p1) (?pls @ [?pl]) = Some True"
    using chunks_valid_split [OF assms(5) ub] fne(2) by (simp add: xs_def)
  have s2: "process_frame ?p1 f t
     = decode_entry (?p1\<lparr>p_chunks := []\<rparr>) 0
         (take 2 ((?pls @ [?pl]) ! 0) @ concat (map (drop 2) (?pls @ [?pl]))) t"
    by (rule process_frame_last [OF ty2 pay2 _ _ _ valid]) (simp_all add: pl)
  have p1: "?p1\<lparr>p_chunks := []\<rparr> = p" using assms(1) by simp
  have whole: "?pls @ [?pl] = xs" using fne(2) by simp
  have t2: "take 2 (xs ! 0) = [b, of_nat (n - 1)]" using nx [of 0] n2 by simp
  have pre: "decode_entry p 0 ([b, of_nat (n - 1)] @ concat cs) t
      = decode_entry p 0 ([b, 0] @ concat cs) t"
    using decode_entry_prefix [of p 0 b "of_nat (n - 1)" "concat cs" t b 0] by simp
  have cc: "concat (map (drop 2) xs) = concat cs"
    by (simp add: xs_def drop2_split_payloads)
  have s3: "process_frame ?p1 f t = decode_entry p 0 ([b, 0] @ concat cs) t"
    unfolding s2 p1 whole t2 cc by (rule pre)
  have s4: "process_frame p single t = decode_entry p 0 ([b, 0] @ concat cs) t"
    by (rule process_frame_single [OF assms(8)]) (use assms(9,1) in \<open>simp_all add: b_def\<close>)
  have "process_frames p frames = process_frame ?p1 f t"
  proof -
    have "process_frames p (butlast frames @ [(f, t)]) = process_frames ?p1 [(f, t)]"
      by (simp only: process_frames_append s1 prod.case option.case)
    then show ?thesis
      using fr by (simp only: process_frames_single)
  qed
  with s3 s4 ft show ?thesis by simp
qed

theorem chunked_equals_single_witness:
  "p_chunks (param_init 1 0) = [] \<and> 0 \<le> p_num (param_init 1 0) \<and> p_num (param_init 1 0) < 256
   \<and> 2 \<le> length [[0x00, 0x08, 0x61, 0x00, 0xFF, 0xFF, 0xFF, 0xFE :: byte],
                    [0x00, 0x00, 0x00, 0x00, 0x00, 0x00, 0x03, 0xE8, 0x00, 0x00, 0x00, 0x01],
                    [0x02, 0x00, 0x00, 0x00, 0x01, 0x6D, 0x00]]
   \<and> process_frames (param_init 1 0)
        [(crsf_frame [0xC8, 0x0E, 0x2B, 0xC8, 0xEE, 0x01, 0x02,
                      0x00, 0x08, 0x61, 0x00, 0xFF, 0xFF, 0xFF, 0xFE, 0xC5], 1),
         (crsf_frame [0xC8, 0x12, 0x2B, 0xC8, 0xEE, 0x01, 0x01,
                      0x00, 0x00, 0x00, 0x00, 0x00, 0x00, 0x03, 0xE8, 0x00, 0x00, 0x00, 0x01, 0x65], 2),
         (crsf_frame [0xC8, 0x0D, 0x2B, 0xC8, 0xEE, 0x01, 0x00,
                      0x02, 0x00, 0x00, 0x00, 0x01, 0x6D, 0x00, 0x64], 3)]
     = process_frame (param_init 1 0)
        (crsf_frame [0xC8, 0x21, 0x2B, 0xC8, 0xEE, 0x01, 0x00,
                     0x00, 0x08, 0x61, 0x00, 0xFF, 0xFF, 0xFF, 0xFE,
                     0x00, 0x00, 0x00, 0x00, 0x00, 0x00, 0x03, 0xE8, 0x00, 0x00, 0x00, 0x01,
                     0x02, 0x00, 0x00, 0x00, 0x01, 0x6D, 0x00, 0xD0]) 3
   \<and> process_frame (param_init 1 0)
        (crsf_frame [0xC8, 0x21, 0x2B, 0xC8, 0xEE, 0x01, 0x00,
                     0x00, 0x08, 0x61, 0x00, 0xFF, 0xFF, 0xFF, 0xFE,
                     0x00, 0x00, 0x00, 0x00, 0x00, 0x00, 0x03, 0xE8, 0x00, 0x00, 0x00, 0x01,
                     0x02, 0x00, 0x00, 0x00, 0x01, 0x6D, 0x00, 0xD0]) 3
     = (None, (param_init 1 0)\<lparr>p_parent_folder := Some 0, p_type := Some 8, p_name := [97],
          p_value := VInt 4294967294, p_min := Some 0, p_default := Some 1, p_max := Some 1000,
          p_unit := Some [109], p_decimal_point := Some 2, p_step_size := Some 1,
          p_obtained_time := 3\<rparr>)"
proof -
  let ?p = "param_init 1 0"
  let ?cs = "[[0x00, 0x08, 0x61, 0x00, 0xFF, 0xFF, 0xFF, 0xFE :: byte],
              [0x00, 0x00, 0x00, 0x00, 0x00, 0x00, 0x03, 0xE8, 0x00, 0x00, 0x00, 0x01],
              [0x02, 0x00, 0x00, 0x00, 0x01, 0x6D, 0x00]]"
  let ?frames = "[(crsf_frame [0xC8, 0x0E, 0x2B, 0xC8, 0xEE, 0x01, 0x02,
                      0x00, 0x08, 0x61, 0x00, 0xFF, 0xFF, 0xFF, 0xFE, 0xC5], 1 :: rat),
         (crsf_frame [0xC8, 0x12, 0x2B, 0xC8, 0xEE, 0x01, 0x01,
                      0x00, 0x00, 0x00, 0x00, 0x00, 0x00, 0x03, 0xE8, 0x00, 0x00, 0x00, 0x01, 0x65], 2),
         (crsf_frame [0xC8, 0x0D, 0x2B, 0xC8, 0xEE, 0x01, 0x00,
                      0x02, 0x00, 0x00, 0x00, 0x01, 0x6D, 0x00, 0x64], 3)]"
  let ?single = "crsf_frame [0xC8, 0x21, 0x2B, 0xC8, 0xEE, 0x01, 0x00,
                     0x00, 0x08, 0x61, 0x00, 0xFF, 0xFF, 0xFF, 0xFE,
                     0x00, 0x00, 0x00, 0x00, 0x00, 0x00, 0x03, 0xE8, 0x00, 0x00, 0x00, 0x01,
                     0x02, 0x00, 0x00, 0x00, 0x01, 0x6D, 0x00, 0xD0]"
  have h1: "p_chunks ?p = []" and h2: "0 \<le> p_num ?p" and h3: "p_num ?p < 256"
    by (simp_all add: param_init_def)
  have h4: "2 \<le> length ?cs" and h5: "length ?cs \<le> 256" by simp_all
  have h6: "map (\<lambda>x. frame_type (fst x)) ?frames
      = replicate (length ?cs) (Some MSG_TYPE_PARAM_ENTRY)"
    by code_simp
  have h7: "map (\<lambda>x. payload (fst x)) ?frames
      = map Some (split_payloads (word_of_int (p_num ?p)) ?cs)"
    by code_simp
  have h8: "frame_type ?single = Some MSG_TYPE_PARAM_ENTRY" by code_simp
  have h9: "payload ?single = Some ([word_of_int (p_num ?p), 0] @ concat ?cs)" by code_simp
  have e: "process_frame ?p ?single 3
     = (None, ?p\<lparr>p_parent_folder := Some 0, p_type := Some 8, p_name := [97],
          p_value := VInt 4294967294, p_min := Some 0, p_default := Some 1, p_max := Some 1000,
          p_unit := Some [109], p_decimal_point := Some 2, p_step_size := Some 1,
          p_obtained_time := 3\<rparr>)"
    by code_simp
  from chunked_equals_single [OF h1 h2 h3 h4 h5 h6 h7 h8 h9] h1 h2 h3 h4 e
  show ?thesis by simp
qed

section \<open>Evaluations of the float codec, the channel decoder and malformed entries\<close>

lemma digits_value_zeros: "foldl (\<lambda>a c. 10 * a + (of_char c - 48)) 0 (replicate k CHR ''0'') = (0::nat)"
  by (induction k) simp_all

lemma eval_literal_zeros:
  "eval_literal (''0.'' @ replicate m CHR ''0'' @ ''1'') = 1 / 10 ^ (m + 1)"
proof -
  have "digits_value (replicate m CHR ''0'' @ ''1'') = 1"
    unfolding digits_value_def foldl_append digits_value_zeros by simp
  then show ?thesis
    by (simp add: eval_literal_def Let_def) (simp add: digits_value_def)
qed

lemma get_float_decimal_Suc:
  "get_float_decimal (p\<lparr>p_decimal_point := Some (int (Suc k))\<rparr>) = 1 / 10 ^ (k + 2)"
proof -
  have "int (Suc k) \<noteq> 0" by simp
  moreover have "nat (int (Suc k)) = Suc k" by (rule nat_int)
  ultimately show ?thesis
    using eval_literal_zeros [of "Suc k"]
    by (simp add: get_float_decimal_def del: of_nat_Suc)
qed

text \<open>
  Claim C1, evaluated on the code. For a decimal point \<open>dp \<ge> 1\<close> the literal built by
  \<open>get_float_decimal\<close> has \<open>dp\<close> zeros and then a 1 after the point, which is
  \<open>10 ^ -(dp + 1)\<close>, while \<open>dp = 0\<close> gives 1. With \<open>decimal_point = 2\<close>, \<open>min = 0\<close>,
  \<open>max = 1000\<close> the value 3.14 is divided by 0.001, the quotient 3140 is out of range and
  \<open>encode_float\<close> returns None; with a wider range it returns 3140, whose four bytes are
  00 00 0C 44 and not 00 00 01 3A. The quotient is an integer, so the rounding of Python's
  floats plays no part.
\<close>

theorem encode_float_scenario:
  "get_float_decimal ((param_init 1 0)\<lparr>p_type := Some FLOAT_TYPE, p_min := Some 0,
        p_max := Some 1000, p_decimal_point := Some 2\<rparr>) = 1 / 1000
   \<and> encode_float ((param_init 1 0)\<lparr>p_type := Some FLOAT_TYPE, p_min := Some 0,
        p_max := Some 1000, p_decimal_point := Some 2\<rparr>) (314 / 100) = Inr None
   \<and> encode_float ((param_init 1 0)\<lparr>p_type := Some FLOAT_TYPE, p_min := Some 0,
        p_max := Some 10000, p_decimal_point := Some 2\<rparr>) (314 / 100) = Inr (Some 3140)
   \<and> encode_int32 3140 = [0x00, 0x00, 0x0C, 0x44]
   \<and> encode_int32 314 = [0x00, 0x00, 0x01, 0x3A]
   \<and> get_float_decimal (p\<lparr>p_decimal_point := Some 0\<rparr>) = 1
   \<and> get_float_decimal (p\<lparr>p_decimal_point := Some (int (Suc k))\<rparr>) = 1 / 10 ^ (k + 2)"
proof -
  have a: "get_float_decimal ((param_init 1 0)\<lparr>p_type := Some FLOAT_TYPE, p_min := Some 0,
        p_max := Some 1000, p_decimal_point := Some 2\<rparr>) = 1 / 1000"
    "encode_float ((param_init 1 0)\<lparr>p_type := Some FLOAT_TYPE, p_min := Some 0,
        p_max := Some 1000, p_decimal_point := Some 2\<rparr>) (314 / 100) = Inr None"
    "encode_float ((param_init 1 0)\<lparr>p_type := Some FLOAT_TYPE, p_min := Some 0,
        p_max := Some 10000, p_decimal_point := Some 2\<rparr>) (314 / 100) = Inr (Some 3140)"
    "encode_int32 3140 = [0x00, 0x00, 0x0C, 0x44]"
    "encode_int32 314 = [0x00, 0x00, 0x01, 0x3A]"
    by code_simp+
  have b: "get_float_decimal (p\<lparr>p_decimal_point := Some 0\<rparr>) = 1"
    by (simp add: get_float_decimal_def eval_literal_def digits_value_def)
  show ?thesis using a b get_float_decimal_Suc [where p = p and k = k] by simp
qed

lemma length_bin_byte: "length (bin_byte x) = 8"
  by (simp add: bin_byte_def)

lemma length_bits: "length (concat (map bin_byte xs)) = 8 * length xs"
  by (induction xs) (simp_all add: length_bin_byte)

lemma range_desc_165: "length (range_desc 165 0 11) = 15"
  by code_simp

text \<open>
  Claim C8, evaluated on the code. \<open>range(len(data) - 11, 0, -11)\<close> stops before 0, so the
  word at bit offset 0 (the sixteenth channel) is never read: a 22-byte payload gives fifteen
  values, the channels 1 to 15.
\<close>

theorem ppm_channels_decode_count:
  "length d = 22 \<Longrightarrow> \<exists>chs. ppm_channels_decode d = Inr chs \<and> length chs = 15"
  by (simp add: ppm_channels_decode_def Let_def length_bits range_desc_165)

theorem ppm_channels_decode_count_witness:
  "length [0x01, 0x10, 0xC0, 0x00, 0x08, 0x50, 0x00, 0x03, 0x1C, 0x00, 0x01,
           0x09, 0x50, 0xC0, 0x02, 0x18, 0xD0, 0x00, 0x07, 0x3C, 0x00, 0x02 :: byte] = 22
   \<and> ppm_channels_decode [0x01, 0x10, 0xC0, 0x00, 0x08, 0x50, 0x00, 0x03, 0x1C, 0x00, 0x01,
           0x09, 0x50, 0xC0, 0x02, 0x18, 0xD0, 0x00, 0x07, 0x3C, 0x00, 0x02]
       = Inr (map ticks_to_us [1, 2, 3, 4, 5, 6, 7, 8, 9, 10, 11, 12, 13, 14, 15])
   \<and> (\<exists>chs. ppm_channels_decode [0x01, 0x10, 0xC0, 0x00, 0x08, 0x50, 0x00, 0x03, 0x1C, 0x00, 0x01,
           0x09, 0x50, 0xC0, 0x02, 0x18, 0xD0, 0x00, 0x07, 0x3C, 0x00, 0x02] = Inr chs
          \<and> length chs = 15)"
proof -
  have l: "length [0x01, 0x10, 0xC0, 0x00, 0x08, 0x50, 0x00, 0x03, 0x1C, 0x00, 0x01,
           0x09, 0x50, 0xC0, 0x02, 0x18, 0xD0, 0x00, 0x07, 0x3C, 0x00, 0x02 :: byte] = 22" by simp
  have e: "ppm_channels_decode [0x01, 0x10, 0xC0, 0x00, 0x08, 0x50, 0x00, 0x03, 0x1C, 0x00, 0x01,
           0x09, 0x50, 0xC0, 0x02, 0x18, 0xD0, 0x00, 0x07, 0x3C, 0x00, 0x02]
       = Inr (map ticks_to_us [1, 2, 3, 4, 5, 6, 7, 8, 9, 10, 11, 12, 13, 14, 15])"
    by code_simp
  from ppm_channels_decode_count [OF l] l e show ?thesis by blast
qed

text \<open>
  Claim C9, evaluated on the code. A STRING entry that ends with the NUL of its value makes
  \<open>payload[end + 1]\<close> raise IndexError, and a TEXT_SELECTION entry with three bytes after
  the NUL of its options makes the four-fold unpacking raise ValueError. Both reads stand
  outside the \<open>try\<close> blocks, so the exception leaves \<open>process_frame\<close>; the parameter is
  unchanged.
\<close>

theorem malformed_entry_raises:
  "create_frame [0x2B, 0xC8, 0xEE, 0x01, 0x00, 0x00, 0x0A, 0x61, 0x00, 0x62, 0x00]
     = Inr (crsf_frame [0xC8, 0x0C, 0x2B, 0xC8, 0xEE, 0x01, 0x00, 0x00, 0x0A, 0x61, 0x00, 0x62, 0x00, 0x5F])
   \<and> process_frame (param_init 1 0)
        (crsf_frame [0xC8, 0x0C, 0x2B, 0xC8, 0xEE, 0x01, 0x00, 0x00, 0x0A, 0x61, 0x00, 0x62, 0x00, 0x5F]) 5
       = (Some IndexError, param_init 1 0)
   \<and> create_frame [0x2B, 0xC8, 0xEE, 0x01, 0x00, 0x00, 0x09, 0x61, 0x00, 0x62, 0x3B, 0x63, 0x00,
                   0x01, 0x00, 0x01]
     = Inr (crsf_frame [0xC8, 0x11, 0x2B, 0xC8, 0xEE, 0x01, 0x00, 0x00, 0x09, 0x61, 0x00,
                        0x62, 0x3B, 0x63, 0x00, 0x01, 0x00, 0x01, 0x6E])
   \<and> process_frame (param_init 1 0)
        (crsf_frame [0xC8, 0x11, 0x2B, 0xC8, 0xEE, 0x01, 0x00, 0x00, 0x09, 0x61, 0x00,
                     0x62, 0x3B, 0x63, 0x00, 0x01, 0x00, 0x01, 0x6E]) 5
       = (Some ValueError, param_init 1 0)"
  by code_simp

text \<open>
  Claim C2, evaluated on the code. When the check of the completed chunk list fails, the
  \<open>else\<close> branch returns before \<open>self.chunks = []\<close>: nothing is decoded, and the buffer
  stays as it is, with the terminal chunk in its last slot. First a chunk whose
  \<open>param_num\<close> is not the parameter's, then a terminal chunk while a slot is still empty.
\<close>

theorem chunk_error_keeps_buffer:
  "process_frames (param_init 1 0)
     [(crsf_frame [0xC8, 0x0A, 0x2B, 0xC8, 0xEE, 0x01, 0x01, 0x00, 0x0A, 0x61, 0x00, 0x2E], 1),
      (crsf_frame [0xC8, 0x09, 0x2B, 0xC8, 0xEE, 0x02, 0x00, 0x62, 0x00, 0x09, 0x62], 2)]
     = (None, (param_init 1 0)\<lparr>p_chunks :=
          [Some [0x01, 0x01, 0x00, 0x0A, 0x61, 0x00], Some [0x02, 0x00, 0x62, 0x00, 0x09]]\<rparr>)
   \<and> process_frames (param_init 1 0)
     [(crsf_frame [0xC8, 0x0A, 0x2B, 0xC8, 0xEE, 0x01, 0x02, 0x00, 0x0A, 0x61, 0x00, 0x21], 1),
      (crsf_frame [0xC8, 0x09, 0x2B, 0xC8, 0xEE, 0x01, 0x00, 0x62, 0x00, 0x09, 0x6D], 2)]
     = (None, (param_init 1 0)\<lparr>p_chunks :=
          [Some [0x01, 0x02, 0x00, 0x0A, 0x61, 0x00], None, Some [0x01, 0x00, 0x62, 0x00, 0x09]]\<rparr>)"
  by code_simp

end
